theory Spec2Isabelle
  imports Main "HOL-Library.Word" "HOL-Library.Signed_Division" "HOL-Library.Monad_Syntax"
begin

section \<open>Plugin support header: a shallow embedding of \<^verbatim>\<open>plugin-support.h\<close>\<close>

text \<open>
  The header holds the logging levels, an aligned allocator, bulk copy and fill with a
  NEON path, two alpha blenders (NEON and generic) and an atomic statistics counter.

  Conventions of the embedding:
  \<^item> \<^verbatim>\<open>uint8_t\<close>, \<^verbatim>\<open>uint16_t\<close> and \<^verbatim>\<open>uint64_t\<close> are words of that width;
  \<^item> an array argument is the list of its bytes, and every pointer argument names an array
    object of its own; a pointer into an array is the array with an offset;
  \<^item> an access outside the array is undefined behaviour in C: here it is the result
    \<open>None\<close>, and every function that touches memory returns an \<open>option\<close>;
  \<^item> \<^verbatim>\<open>size_t\<close> counts and indices are natural numbers. The indices a loop forms grow
    from 0, so on arrays that fit an address space the first access out of bounds (the
    result \<open>None\<close>) comes before any \<^verbatim>\<open>size_t\<close> computation could wrap;
  \<^item> the operands of the blend formula are promoted to \<^verbatim>\<open>int\<close> in C: the formula is
    computed on integers with the truncating division \<open>sdiv\<close>, and the assignment to a
    \<^verbatim>\<open>uint8_t\<close> keeps the low 8 bits (\<open>word_of_int\<close>).
\<close>

type_synonym u8 = "8 word"
type_synonym u16 = "16 word"
type_synonym u64 = "64 word"
type_synonym c_int = "32 word"
type_synonym bytes = "u8 list"

subsection \<open>Logging levels\<close>

definition LOG_ERROR :: int where
  "LOG_ERROR = 3"

definition LOG_WARNING :: int where
  "LOG_WARNING = 4"

definition LOG_INFO :: int where
  "LOG_INFO = 6"

definition LOG_DEBUG :: int where
  "LOG_DEBUG = 7"

subsection \<open>Array accesses\<close>

definition load_u8 :: "bytes \<Rightarrow> nat \<Rightarrow> u8 option" where
  "load_u8 m p = (if p < length m then Some (m ! p) else None)"

definition store_u8 :: "bytes \<Rightarrow> nat \<Rightarrow> u8 \<Rightarrow> bytes option" where
  "store_u8 m p b = (if p < length m then Some (m[p := b]) else None)"

subsection \<open>Alpha blending: the scalar path\<close>

text \<open>
  The right-hand side of
  \<^verbatim>\<open>dst[k] = (dst[k] * (255 - a) + src[k] * a) / 255\<close>:
  \<open>blend_sum\<close> is the dividend, computed in \<^verbatim>\<open>int\<close>, and \<open>blend_channel\<close> is the byte
  that the assignment stores.
\<close>

definition blend_sum :: "u8 \<Rightarrow> u8 \<Rightarrow> u8 \<Rightarrow> int" where
  "blend_sum d s a = uint d * (255 - uint a) + uint s * uint a"

definition blend_channel :: "u8 \<Rightarrow> u8 \<Rightarrow> u8 \<Rightarrow> u8" where
  "blend_channel d s a = word_of_int (blend_sum d s a sdiv 255)"

text \<open>One assignment of the loop body, at byte index \<open>k\<close>, with the pixel's alpha \<open>a\<close>.\<close>

definition blend_store :: "bytes \<Rightarrow> bytes \<Rightarrow> u8 \<Rightarrow> nat \<Rightarrow> bytes option" where
  "blend_store dst src a k = do {
     d \<leftarrow> load_u8 dst k;
     s \<leftarrow> load_u8 src k;
     store_u8 dst k (blend_channel d s a)
   }"

text \<open>The loop body for pixel \<open>i\<close>: read the alpha, then the four assignments in order.\<close>

definition blend_pixel :: "bytes \<Rightarrow> bytes \<Rightarrow> bytes \<Rightarrow> nat \<Rightarrow> bytes option" where
  "blend_pixel dst src alpha i = do {
     a \<leftarrow> load_u8 alpha i;
     dst0 \<leftarrow> blend_store dst src a (i * 4 + 0);
     dst1 \<leftarrow> blend_store dst0 src a (i * 4 + 1);
     dst2 \<leftarrow> blend_store dst1 src a (i * 4 + 2);
     blend_store dst2 src a (i * 4 + 3)
   }"

text \<open>\<^verbatim>\<open>for (; i < count; i++) { ... }\<close>, from the current value of \<open>i\<close>.\<close>

function blend_scalar_loop :: "bytes \<Rightarrow> bytes \<Rightarrow> bytes \<Rightarrow> nat \<Rightarrow> nat \<Rightarrow> bytes option" where
  "blend_scalar_loop dst src alpha count i =
     (if i < count then do {
        dst' \<leftarrow> blend_pixel dst src alpha i;
        blend_scalar_loop dst' src alpha count (Suc i)
      } else Some dst)"
  by pat_completeness auto
termination
  by (relation "measure (\<lambda>(dst, src, alpha, count, i). count - i)") auto

declare blend_scalar_loop.simps [simp del]

definition obs_blend_alpha_generic :: "bytes \<Rightarrow> bytes \<Rightarrow> bytes \<Rightarrow> nat \<Rightarrow> bytes option" where
  "obs_blend_alpha_generic dst src alpha count = blend_scalar_loop dst src alpha count 0"

subsection \<open>The C library's byte-wise copy and fill\<close>

text \<open>
  \<^verbatim>\<open>memcpy\<close> and \<^verbatim>\<open>memset\<close> belong to the C library, not to the header. They are
  modelled by what the C standard says of them, one byte at a time: \<open>memcpy dst d src s n\<close>
  copies \<open>n\<close> bytes from \<open>src + s\<close> to \<open>dst + d\<close>, and \<open>memset dst d v n\<close> stores the
  fill value, converted to \<^verbatim>\<open>unsigned char\<close>, in the \<open>n\<close> bytes from \<open>dst + d\<close>. The fill
  value is a C \<^verbatim>\<open>int\<close>: the 32-bit word of its two's complement bits.
\<close>

fun memcpy :: "bytes \<Rightarrow> nat \<Rightarrow> bytes \<Rightarrow> nat \<Rightarrow> nat \<Rightarrow> bytes option" where
  "memcpy dst d src s 0 = Some dst"
| "memcpy dst d src s (Suc n) = do {
     b \<leftarrow> load_u8 src s;
     dst' \<leftarrow> store_u8 dst d b;
     memcpy dst' (Suc d) src (Suc s) n
   }"

fun memset :: "bytes \<Rightarrow> nat \<Rightarrow> c_int \<Rightarrow> nat \<Rightarrow> bytes option" where
  "memset dst d v 0 = Some dst"
| "memset dst d v (Suc n) = do {
     dst' \<leftarrow> store_u8 dst d (ucast v);
     memset dst' (Suc d) v n
   }"

subsection \<open>The NEON intrinsics the header uses\<close>

text \<open>
  The intrinsics come from \<^verbatim>\<open>arm_neon.h\<close>. A vector is the list of its lanes, lane 0
  first: a \<^verbatim>\<open>uint8x16_t\<close> has 16 lanes of 8 bits, a \<^verbatim>\<open>uint8x8_t\<close> 8 lanes of 8 bits,
  a \<^verbatim>\<open>uint16x8_t\<close> 8 lanes of 16 bits, and a \<^verbatim>\<open>uint8x16x4_t\<close> is the list of its four
  vectors (the field \<^verbatim>\<open>val\<close>). Loads and stores move consecutive bytes, lane 0 at the
  lowest address.
\<close>

type_synonym uint8x16_t = "u8 list"
type_synonym uint8x8_t = "u8 list"
type_synonym uint16x8_t = "u16 list"
type_synonym uint8x16x4_t = "uint8x16_t list"

definition vld1q_u8 :: "bytes \<Rightarrow> nat \<Rightarrow> uint8x16_t option" where
  "vld1q_u8 m p = (if p + 16 \<le> length m then Some (take 16 (drop p m)) else None)"

definition vst1q_u8 :: "bytes \<Rightarrow> nat \<Rightarrow> uint8x16_t \<Rightarrow> bytes option" where
  "vst1q_u8 m p v = (if p + 16 \<le> length m then Some (take p m @ take 16 v @ drop (p + 16) m) else None)"

definition vld1q_u8_x4 :: "bytes \<Rightarrow> nat \<Rightarrow> uint8x16x4_t option" where
  "vld1q_u8_x4 m p =
     (if p + 64 \<le> length m then Some (map (\<lambda>j. take 16 (drop (p + 16 * j) m)) [0..<4]) else None)"

definition vst1q_u8_x4 :: "bytes \<Rightarrow> nat \<Rightarrow> uint8x16x4_t \<Rightarrow> bytes option" where
  "vst1q_u8_x4 m p data =
     (if p + 64 \<le> length m
      then Some (take p m @ take 64 (concat (map (take 16) data)) @ drop (p + 64) m) else None)"

definition vdupq_n_u8 :: "u8 \<Rightarrow> uint8x16_t" where
  "vdupq_n_u8 b = replicate 16 b"

definition vdupq_laneq_u8 :: "uint8x16_t \<Rightarrow> nat \<Rightarrow> uint8x16_t" where
  "vdupq_laneq_u8 v lane = replicate 16 (v ! lane)"

definition vget_low_u8 :: "uint8x16_t \<Rightarrow> uint8x8_t" where
  "vget_low_u8 v = take 8 v"

definition vget_high_u8 :: "uint8x16_t \<Rightarrow> uint8x8_t" where
  "vget_high_u8 v = drop 8 v"

text \<open>The widening multiply: each product of two 8-bit lanes is a 16-bit lane.\<close>

definition vmull_u8 :: "uint8x8_t \<Rightarrow> uint8x8_t \<Rightarrow> uint16x8_t" where
  "vmull_u8 a b = map2 (\<lambda>x y. (ucast x :: u16) * ucast y) a b"

text \<open>The saturating narrow: a 16-bit lane above 255 becomes 255.\<close>

definition vqmovn_u16 :: "uint16x8_t \<Rightarrow> uint8x8_t" where
  "vqmovn_u16 v = map (\<lambda>x. if 255 < x then 255 else (ucast x :: u8)) v"

definition vcombine_u8 :: "uint8x8_t \<Rightarrow> uint8x8_t \<Rightarrow> uint8x16_t" where
  "vcombine_u8 lo hi = lo @ hi"

subsection \<open>Bulk copy and fill, the NEON build\<close>

text \<open>
  The \<^verbatim>\<open>while (size >= 64)\<close> loop of \<^verbatim>\<open>obs_memcpy_neon\<close>. The pointers \<^verbatim>\<open>d\<close> and
  \<^verbatim>\<open>s\<close> are offsets into the two arrays; the loop returns the destination with the
  final values of \<^verbatim>\<open>d\<close>, \<^verbatim>\<open>s\<close> and \<^verbatim>\<open>size\<close> (written \<open>sz\<close>, as \<open>size\<close> is a constant of HOL).
\<close>

function memcpy_neon_loop :: "bytes \<Rightarrow> nat \<Rightarrow> bytes \<Rightarrow> nat \<Rightarrow> nat \<Rightarrow> (bytes \<times> nat \<times> nat \<times> nat) option" where
  "memcpy_neon_loop dst d src s sz =
     (if 64 \<le> sz then do {
        data \<leftarrow> vld1q_u8_x4 src s;
        dst' \<leftarrow> vst1q_u8_x4 dst d data;
        memcpy_neon_loop dst' (d + 64) src (s + 64) (sz - 64)
      } else Some (dst, d, s, sz))"
  by pat_completeness auto
termination
  by (relation "measure (\<lambda>(dst, d, src, s, sz). sz)") auto

declare memcpy_neon_loop.simps [simp del]

definition obs_memcpy_neon :: "bytes \<Rightarrow> bytes \<Rightarrow> nat \<Rightarrow> bytes option" where
  "obs_memcpy_neon dst src sz =
     (if 64 \<le> sz then do {
        (dst', d, s, sz') \<leftarrow> memcpy_neon_loop dst 0 src 0 sz;
        if 0 < sz' then memcpy dst' d src s sz' else Some dst'
      } else memcpy dst 0 src 0 sz)"

function memset_neon_loop :: "bytes \<Rightarrow> nat \<Rightarrow> uint8x16_t \<Rightarrow> nat \<Rightarrow> (bytes \<times> nat \<times> nat) option" where
  "memset_neon_loop dst d val sz =
     (if 64 \<le> sz then do {
        dst1 \<leftarrow> vst1q_u8 dst d val;
        dst2 \<leftarrow> vst1q_u8 dst1 (d + 16) val;
        dst3 \<leftarrow> vst1q_u8 dst2 (d + 32) val;
        dst4 \<leftarrow> vst1q_u8 dst3 (d + 48) val;
        memset_neon_loop dst4 (d + 64) val (sz - 64)
      } else Some (dst, d, sz))"
  by pat_completeness auto
termination
  by (relation "measure (\<lambda>(dst, d, val, sz). sz)") auto

declare memset_neon_loop.simps [simp del]

definition obs_memset_neon :: "bytes \<Rightarrow> c_int \<Rightarrow> nat \<Rightarrow> bytes option" where
  "obs_memset_neon dst v sz =
     (if 64 \<le> sz then do {
        (dst', d, sz') \<leftarrow> memset_neon_loop dst 0 (vdupq_n_u8 (ucast v)) sz;
        if 0 < sz' then memset dst' d v sz' else Some dst'
      } else memset dst 0 v sz)"

subsection \<open>Bulk copy and fill, the build without NEON\<close>

text \<open>
  Off ARM the header defines \<^verbatim>\<open>obs_memcpy_neon\<close> and \<^verbatim>\<open>obs_memset_neon\<close> as
  \<^verbatim>\<open>memcpy\<close> and \<^verbatim>\<open>memset\<close>: the byte-wise copy and fill.
\<close>

definition obs_memcpy_scalar :: "bytes \<Rightarrow> bytes \<Rightarrow> nat \<Rightarrow> bytes option" where
  "obs_memcpy_scalar dst src sz = memcpy dst 0 src 0 sz"

definition obs_memset_scalar :: "bytes \<Rightarrow> c_int \<Rightarrow> nat \<Rightarrow> bytes option" where
  "obs_memset_scalar dst v sz = memset dst 0 v sz"

subsection \<open>Alpha blending: the NEON path\<close>

text \<open>
  The \<^verbatim>\<open>for (; i + 16 <= count; i += 16)\<close> loop of \<^verbatim>\<open>obs_blend_alpha_neon\<close>, statement
  by statement; it returns the destination and the final \<open>i\<close>. The remainder loop that
  follows it is the scalar loop, started at that \<open>i\<close>.
\<close>

function blend_neon_loop :: "bytes \<Rightarrow> bytes \<Rightarrow> bytes \<Rightarrow> nat \<Rightarrow> nat \<Rightarrow> (bytes \<times> nat) option" where
  "blend_neon_loop dst src alpha count i =
     (if i + 16 \<le> count then do {
        src_data \<leftarrow> vld1q_u8 src (i * 4);
        dst_data \<leftarrow> vld1q_u8 dst (i * 4);
        alpha_data \<leftarrow> vld1q_u8 alpha i;
        let alpha_expanded =
          [vdupq_laneq_u8 alpha_data 0, vdupq_laneq_u8 alpha_data 1,
           vdupq_laneq_u8 alpha_data 2, vdupq_laneq_u8 alpha_data 3];
        let blend_lo = vmull_u8 (vget_low_u8 src_data) (vget_low_u8 (alpha_expanded ! 0));
        let blend_hi = vmull_u8 (vget_high_u8 src_data) (vget_high_u8 (alpha_expanded ! 0));
        let result = vcombine_u8 (vqmovn_u16 blend_lo) (vqmovn_u16 blend_hi);
        dst' \<leftarrow> vst1q_u8 dst (i * 4) result;
        blend_neon_loop dst' src alpha count (i + 16)
      } else Some (dst, i))"
  by pat_completeness auto
termination
  by (relation "measure (\<lambda>(dst, src, alpha, count, i). count - i)") auto

declare blend_neon_loop.simps [simp del]

definition obs_blend_alpha_neon :: "bytes \<Rightarrow> bytes \<Rightarrow> bytes \<Rightarrow> nat \<Rightarrow> bytes option" where
  "obs_blend_alpha_neon dst src alpha count = do {
     (dst', i) \<leftarrow> blend_neon_loop dst src alpha count 0;
     blend_scalar_loop dst' src alpha count i
   }"

subsection \<open>Aligned allocation\<close>






text \<open>
  What POSIX promises of \<^verbatim>\<open>posix_memalign\<close>: the status is \<^verbatim>\<open>EINVAL\<close> when the alignment
  is not a power of two that is a multiple of \<^verbatim>\<open>sizeof(void *)\<close>, and on status 0 the
  stored pointer is a multiple of the alignment. For a size of 0 POSIX leaves the allocator
  free to store a null pointer or a unique pointer.
\<close>

fun is_power_of_two :: "nat \<Rightarrow> bool" where
  "is_power_of_two n = (if n < 2 then n = 1 else even n \<and> is_power_of_two (n div 2))"

declare is_power_of_two.simps [simp del]



subsection \<open>The statistics counter\<close>

text \<open>
  The structure has the fields \<^verbatim>\<open>value\<close> and \<^verbatim>\<open>updates\<close>, both \<^verbatim>\<open>_Atomic uint64_t\<close>;
  they are \<open>counter_value\<close> and \<open>counter_updates\<close> here. Each atomic operation of
  \<^verbatim>\<open>stdatomic.h\<close> is one indivisible step on one field; the addition of
  \<^verbatim>\<open>atomic_fetch_add\<close> is the addition of \<^verbatim>\<open>uint64_t\<close>, which wraps.
\<close>

record obs_atomic_counter_t =
  counter_value :: u64
  counter_updates :: u64

definition atomic_store_value :: "obs_atomic_counter_t \<Rightarrow> u64 \<Rightarrow> obs_atomic_counter_t" where
  "atomic_store_value c x = c\<lparr>counter_value := x\<rparr>"

definition atomic_store_updates :: "obs_atomic_counter_t \<Rightarrow> u64 \<Rightarrow> obs_atomic_counter_t" where
  "atomic_store_updates c x = c\<lparr>counter_updates := x\<rparr>"

definition atomic_fetch_add_value :: "obs_atomic_counter_t \<Rightarrow> u64 \<Rightarrow> obs_atomic_counter_t" where
  "atomic_fetch_add_value c x = c\<lparr>counter_value := counter_value c + x\<rparr>"

definition atomic_fetch_add_updates :: "obs_atomic_counter_t \<Rightarrow> u64 \<Rightarrow> obs_atomic_counter_t" where
  "atomic_fetch_add_updates c x = c\<lparr>counter_updates := counter_updates c + x\<rparr>"

definition obs_atomic_counter_init :: "obs_atomic_counter_t \<Rightarrow> obs_atomic_counter_t" where
  "obs_atomic_counter_init counter = atomic_store_updates (atomic_store_value counter 0) 0"

text \<open>
  The body of \<^verbatim>\<open>obs_atomic_counter_increment\<close> is two atomic operations in program order:
  a fetch-and-add of \<open>delta\<close> on \<^verbatim>\<open>value\<close>, then a fetch-and-add of 1 on \<^verbatim>\<open>updates\<close>.
  Another thread may move between the two, so the function is embedded as the list of its
  atomic operations on the counter it is given; \<open>run_call\<close> takes them back to back, which
  is a call that no other thread interrupts.
\<close>

datatype atomic_op = Fetch_add_value u64 | Fetch_add_updates u64

fun atomic_step :: "obs_atomic_counter_t \<Rightarrow> atomic_op \<Rightarrow> obs_atomic_counter_t" where
  "atomic_step c (Fetch_add_value x) = atomic_fetch_add_value c x"
| "atomic_step c (Fetch_add_updates x) = atomic_fetch_add_updates c x"

definition obs_atomic_counter_increment :: "u64 \<Rightarrow> atomic_op list" where
  "obs_atomic_counter_increment delta = [Fetch_add_value delta, Fetch_add_updates 1]"

definition run_call :: "obs_atomic_counter_t \<Rightarrow> atomic_op list \<Rightarrow> obs_atomic_counter_t" where
  "run_call counter ops = foldl atomic_step counter ops"

definition obs_atomic_counter_get :: "obs_atomic_counter_t \<Rightarrow> u64" where
  "obs_atomic_counter_get counter = counter_value counter"

definition obs_atomic_counter_get_updates :: "obs_atomic_counter_t \<Rightarrow> u64" where
  "obs_atomic_counter_get_updates counter = counter_updates counter"

text \<open>
  A counter after \<^verbatim>\<open>obs_atomic_counter_init\<close> and one call of
  \<^verbatim>\<open>obs_atomic_counter_increment\<close> for each delta, in order, by one caller.
\<close>

definition counter_run :: "obs_atomic_counter_t \<Rightarrow> u64 list \<Rightarrow> obs_atomic_counter_t" where
  "counter_run counter deltas =
     foldl (\<lambda>c delta. run_call c (obs_atomic_counter_increment delta))
       (obs_atomic_counter_init counter) deltas"

subsection \<open>Threads that increment one counter\<close>

text \<open>
  The atomic operations are sequentially consistent, so a run of several threads is an
  interleaving of their atomic steps. A thread is the list of the steps it has still to
  take: a thread that makes \<open>K\<close> calls of \<^verbatim>\<open>obs_atomic_counter_increment\<close> with delta 1
  starts as \<open>concat (replicate K (obs_atomic_counter_increment 1))\<close>. A schedule names, step
  by step, the thread that moves; naming a thread that has finished changes nothing.
\<close>

fun sched_step :: "obs_atomic_counter_t \<times> atomic_op list list \<Rightarrow> nat \<Rightarrow> obs_atomic_counter_t \<times> atomic_op list list" where
  "sched_step (c, ts) t =
     (if t < length ts then
        (case ts ! t of [] \<Rightarrow> (c, ts) | a # rest \<Rightarrow> (atomic_step c a, ts[t := rest]))
      else (c, ts))"

definition run_schedule :: "nat list \<Rightarrow> obs_atomic_counter_t \<times> atomic_op list list \<Rightarrow> obs_atomic_counter_t \<times> atomic_op list list" where
  "run_schedule sched st = foldl sched_step st sched"

definition finished :: "atomic_op list list \<Rightarrow> bool" where
  "finished ts = list_all (\<lambda>t. t = []) ts"

subsection \<open>Closed forms of the loops' results\<close>

text \<open>
  The destination after the scalar loop has run over the pixels \<open>lo \<le> i < hi\<close>: the
  bytes of those pixels are blended, the others are as before.
\<close>

definition blended :: "bytes \<Rightarrow> bytes \<Rightarrow> bytes \<Rightarrow> nat \<Rightarrow> nat \<Rightarrow> bytes" where
  "blended dst src alpha lo hi =
     map (\<lambda>k. if lo * 4 \<le> k \<and> k < hi * 4
               then blend_channel (dst ! k) (src ! k) (alpha ! (k div 4)) else dst ! k)
       [0..<length dst]"

text \<open>The array \<open>m\<close> with the bytes \<open>xs\<close> written over it from offset \<open>p\<close>.\<close>

definition overwrite :: "bytes \<Rightarrow> nat \<Rightarrow> bytes \<Rightarrow> bytes" where
  "overwrite m p xs = take p m @ xs @ drop (p + length xs) m"

text \<open>
  What the steps still to be taken will add to each field, and the sum of a field with
  what is still to be added to it: no step of any thread changes that sum.
\<close>

fun pending_value :: "atomic_op list \<Rightarrow> u64" where
  "pending_value [] = 0"
| "pending_value (Fetch_add_value x # ops) = x + pending_value ops"
| "pending_value (Fetch_add_updates x # ops) = pending_value ops"

fun pending_updates :: "atomic_op list \<Rightarrow> u64" where
  "pending_updates [] = 0"
| "pending_updates (Fetch_add_value x # ops) = pending_updates ops"
| "pending_updates (Fetch_add_updates x # ops) = x + pending_updates ops"

definition total_value :: "obs_atomic_counter_t \<times> atomic_op list list \<Rightarrow> u64" where
  "total_value st = counter_value (fst st) + sum_list (map pending_value (snd st))"

definition total_updates :: "obs_atomic_counter_t \<times> atomic_op list list \<Rightarrow> u64" where
  "total_updates st = counter_updates (fst st) + sum_list (map pending_updates (snd st))"

section \<open>Properties\<close>

subsection \<open>The blend formula stays in range\<close>

lemma uint_u8_le: "uint (x :: u8) \<le> 255"
  using uint_lt2p [of x] by simp

lemma blend_sum_nonneg: "0 \<le> blend_sum d s a"
  using uint_u8_le [of a] by (simp add: blend_sum_def)

lemma blend_sum_le: "blend_sum d s a \<le> 65025"
proof -
  have a: "0 \<le> uint a" "uint a \<le> 255"
    using uint_u8_le [of a] by simp_all
  have "uint d * (255 - uint a) \<le> 255 * (255 - uint a)"
    using a uint_u8_le [of d] by (intro mult_right_mono) simp_all
  moreover have "uint s * uint a \<le> 255 * uint a"
    using a uint_u8_le [of s] by (intro mult_right_mono) simp_all
  ultimately show ?thesis
    by (simp add: blend_sum_def algebra_simps)
qed

lemma blend_sum_sdiv: "blend_sum d s a sdiv 255 = blend_sum d s a div 255"
  using blend_sum_nonneg [of d s a]
  by (simp add: signed_divide_int_def sgn_if)

lemma blend_quotient_range:
  "0 \<le> blend_sum d s a sdiv 255 \<and> blend_sum d s a sdiv 255 \<le> 255"
proof -
  have "blend_sum d s a div 255 \<le> 65025 div 255"
    by (rule zdiv_mono1) (simp_all add: blend_sum_le)
  moreover have "0 \<le> blend_sum d s a div 255"
    using blend_sum_nonneg [of d s a] by (simp add: pos_imp_zdiv_nonneg_iff)
  ultimately show ?thesis
    by (simp add: blend_sum_sdiv)
qed

lemma uint_blend_channel: "uint (blend_channel d s a) = blend_sum d s a sdiv 255"
  using blend_quotient_range [of d s a]
  by (simp add: blend_channel_def uint_word_of_int take_bit_int_eq_self)

text \<open>
  Claim C8. For all 8-bit channel values \<open>d\<close>, \<open>s\<close> and every 8-bit alpha \<open>a\<close>, the dividend
  \<open>d * (255 - a) + s * a\<close> is at most \<open>255 * 255 = 65025\<close> (and not negative, so it fits
  a C \<^verbatim>\<open>int\<close>), its truncating quotient by 255 is at most 255, and the byte stored by
  the scalar blend has exactly the value of the formula: the narrowing store does not wrap.
\<close>

theorem blend_channel_no_wrap:
  "0 \<le> blend_sum d s a \<and> blend_sum d s a \<le> 255 * 255 \<and> blend_sum d s a < 2 ^ 31
   \<and> blend_sum d s a sdiv 255 \<le> 255
   \<and> uint (blend_channel d s a) = (uint d * (255 - uint a) + uint s * uint a) sdiv 255"
proof -
  have "blend_sum d s a < 2 ^ 31"
    using blend_sum_le [of d s a] by simp
  moreover have "uint (blend_channel d s a) = (uint d * (255 - uint a) + uint s * uint a) sdiv 255"
    using uint_blend_channel [of d s a] by (simp add: blend_sum_def)
  ultimately show ?thesis
    using blend_sum_nonneg [of d s a] blend_sum_le [of d s a] blend_quotient_range [of d s a]
    by simp
qed

subsection \<open>Logging levels\<close>

text \<open>
  Claim C10. The four logging level constants are strictly ordered:
  \<open>LOG_ERROR < LOG_WARNING < LOG_INFO < LOG_DEBUG\<close>; the error level is the smallest
  number (the least verbose level) and the debug level the largest (the most verbose).
\<close>

theorem log_levels_strictly_ordered:
  "LOG_ERROR < LOG_WARNING \<and> LOG_WARNING < LOG_INFO \<and> LOG_INFO < LOG_DEBUG"
  by (simp add: LOG_ERROR_def LOG_WARNING_def LOG_INFO_def LOG_DEBUG_def)

subsection \<open>The scalar blend\<close>

lemma blend_store_Some:
  "k < length dst \<Longrightarrow> k < length src \<Longrightarrow>
   blend_store dst src a k = Some (dst[k := blend_channel (dst ! k) (src ! k) a])"
  by (simp add: blend_store_def load_u8_def store_u8_def)

lemma length_blended [simp]: "length (blended dst src alpha lo hi) = length dst"
  by (simp add: blended_def)

lemma nth_blended:
  "k < length dst \<Longrightarrow> blended dst src alpha lo hi ! k =
     (if lo * 4 \<le> k \<and> k < hi * 4
      then blend_channel (dst ! k) (src ! k) (alpha ! (k div 4)) else dst ! k)"
  by (simp add: blended_def)

lemma blend_pixel_Some:
  assumes "i * 4 + 4 \<le> length dst" "i * 4 + 4 \<le> length src" "i < length alpha"
  shows "blend_pixel dst src alpha i = Some (blended dst src alpha i (Suc i))"
proof -
  let ?a = "alpha ! i"
  let ?r = "dst[i * 4 := blend_channel (dst ! (i * 4)) (src ! (i * 4)) ?a,
                i * 4 + 1 := blend_channel (dst ! (i * 4 + 1)) (src ! (i * 4 + 1)) ?a,
                i * 4 + 2 := blend_channel (dst ! (i * 4 + 2)) (src ! (i * 4 + 2)) ?a,
                i * 4 + 3 := blend_channel (dst ! (i * 4 + 3)) (src ! (i * 4 + 3)) ?a]"
  have "blend_pixel dst src alpha i = Some ?r"
    using assms by (simp add: blend_pixel_def load_u8_def blend_store_Some)
  moreover have "?r = blended dst src alpha i (Suc i)"
  proof (rule nth_equalityI)
    show "length ?r = length (blended dst src alpha i (Suc i))" by simp
  next
    fix k assume "k < length ?r"
    then have k: "k < length dst" by simp
    have d: "i * 4 div 4 = i" "Suc (i * 4) div 4 = i" "Suc (Suc (i * 4)) div 4 = i"
      "(i * 4 + 3) div 4 = i" by simp_all
    consider "k = i * 4" | "k = i * 4 + 1" | "k = i * 4 + 2" | "k = i * 4 + 3"
      | "k < i * 4 \<or> i * 4 + 4 \<le> k" by linarith
    then show "?r ! k = blended dst src alpha i (Suc i) ! k"
      using k assms by cases (auto simp: nth_blended nth_list_update d)
  qed
  ultimately show ?thesis by simp
qed

lemma blended_step:
  assumes "i < count" "count * 4 \<le> length dst"
  shows "blended (blended dst src alpha i (Suc i)) src alpha (Suc i) count = blended dst src alpha i count"
proof (rule nth_equalityI)
  show "length (blended (blended dst src alpha i (Suc i)) src alpha (Suc i) count) = length (blended dst src alpha i count)"
    by simp
next
  fix k assume "k < length (blended (blended dst src alpha i (Suc i)) src alpha (Suc i) count)"
  then have k: "k < length dst" by simp
  show "blended (blended dst src alpha i (Suc i)) src alpha (Suc i) count ! k = blended dst src alpha i count ! k"
    using k assms by (auto simp: nth_blended)
qed

lemma blend_scalar_loop_Some:
  "i \<le> count \<Longrightarrow> count * 4 \<le> length dst \<Longrightarrow> count * 4 \<le> length src \<Longrightarrow> count \<le> length alpha \<Longrightarrow>
   blend_scalar_loop dst src alpha count i = Some (blended dst src alpha i count)"
proof (induction dst src alpha count i rule: blend_scalar_loop.induct)
  case (1 dst src alpha count i)
  show ?case
  proof (cases "i < count")
    case True
    have p: "blend_pixel dst src alpha i = Some (blended dst src alpha i (Suc i))"
      using True "1.prems" by (intro blend_pixel_Some) auto
    have "blend_scalar_loop (blended dst src alpha i (Suc i)) src alpha count (Suc i)
        = Some (blended (blended dst src alpha i (Suc i)) src alpha (Suc i) count)"
      using True "1.prems" by (intro "1.IH" [OF True p]) auto
    then show ?thesis
      using True p "1.prems" by (subst blend_scalar_loop.simps) (simp add: blended_step)
  next
    case False
    then have "i = count" using "1.prems" by simp
    have "blended dst src alpha count count = dst"
      by (rule nth_equalityI) (auto simp: nth_blended)
    then show ?thesis using \<open>i = count\<close>
      by (subst blend_scalar_loop.simps) simp
  qed
qed

lemma blend_channel_alpha_zero: "blend_channel d s 0 = d"
proof -
  have "blend_sum d s 0 div 255 = uint d"
    by (simp add: blend_sum_def)
  then show ?thesis
    by (simp add: blend_channel_def blend_sum_sdiv)
qed

text \<open>
  Claim C1. For every pixel count and all arrays \<open>dst\<close>, \<open>src\<close> and \<open>alpha\<close> of sufficient
  size (\<open>count * 4\<close> bytes of pixels, \<open>count\<close> bytes of alpha), the scalar blend returns, and
  in the destination it leaves, for each pixel \<open>i < count\<close> and each channel \<open>c < 4\<close>,
  byte \<open>i * 4 + c\<close> has the value
  \<open>(dst[i*4+c] * (255 - alpha[i]) + src[i*4+c] * alpha[i]) / 255\<close> with truncating division,
  where \<open>dst\<close> on the right is the destination before the call.
\<close>

theorem obs_blend_alpha_generic_formula:
  assumes "count * 4 \<le> length dst" and "count * 4 \<le> length src" and "count \<le> length alpha"
  shows "\<exists>dst'. obs_blend_alpha_generic dst src alpha count = Some dst'
           \<and> length dst' = length dst
           \<and> (\<forall>i<count. \<forall>c<4. uint (dst' ! (i * 4 + c)) =
                 (uint (dst ! (i * 4 + c)) * (255 - uint (alpha ! i))
                   + uint (src ! (i * 4 + c)) * uint (alpha ! i)) sdiv 255)"
proof -
  let ?r = "blended dst src alpha 0 count"
  have run: "obs_blend_alpha_generic dst src alpha count = Some ?r"
    using assms by (simp add: obs_blend_alpha_generic_def blend_scalar_loop_Some)
  have "uint (?r ! (i * 4 + c)) =
      (uint (dst ! (i * 4 + c)) * (255 - uint (alpha ! i))
        + uint (src ! (i * 4 + c)) * uint (alpha ! i)) sdiv 255"
    if "i < count" and "c < 4" for i c
  proof -
    have k: "i * 4 + c < count * 4" "i * 4 + c < length dst"
      using that assms by simp_all
    have "(i * 4 + c) div 4 = i"
      using that by simp
    then have "?r ! (i * 4 + c) = blend_channel (dst ! (i * 4 + c)) (src ! (i * 4 + c)) (alpha ! i)"
      using k by (simp add: nth_blended)
    then show ?thesis
      by (simp add: uint_blend_channel blend_sum_def)
  qed
  with run show ?thesis by simp
qed

theorem obs_blend_alpha_generic_formula_witness:
  "2 * 4 \<le> length [10, 20, 30, 40, 50, 60, 70, 80 :: u8]
   \<and> 2 * 4 \<le> length [200, 0, 255, 1, 9, 8, 7, 6 :: u8]
   \<and> 2 \<le> length [128, 255 :: u8]
   \<and> (\<exists>dst'. obs_blend_alpha_generic [10, 20, 30, 40, 50, 60, 70, 80]
                [200, 0, 255, 1, 9, 8, 7, 6] [128, 255] 2 = Some dst'
          \<and> uint (dst' ! 0) = 105 \<and> uint (dst' ! 7) = 6)"
proof -
  let ?dst = "[10, 20, 30, 40, 50, 60, 70, 80 :: u8]"
  let ?src = "[200, 0, 255, 1, 9, 8, 7, 6 :: u8]"
  let ?alpha = "[128, 255 :: u8]"
  obtain dst' where run: "obs_blend_alpha_generic ?dst ?src ?alpha 2 = Some dst'"
    and f: "\<forall>i<2. \<forall>c<4. uint (dst' ! (i * 4 + c)) =
             (uint (?dst ! (i * 4 + c)) * (255 - uint (?alpha ! i))
               + uint (?src ! (i * 4 + c)) * uint (?alpha ! i)) sdiv 255"
    using obs_blend_alpha_generic_formula [of 2 ?dst ?src ?alpha] by auto
  have "uint (dst' ! 0) = 105"
    using f [rule_format, of 0 0] by simp
  moreover have "uint (dst' ! 7) = 6"
    using f [rule_format, of 1 3] by simp
  ultimately show ?thesis
    using run by simp
qed

text \<open>
  Claim C9. For every pixel \<open>i < count\<close> whose alpha byte is 0, the scalar blend leaves the
  four destination bytes of that pixel as they were.
\<close>

theorem obs_blend_alpha_generic_alpha_zero:
  assumes "count * 4 \<le> length dst" and "count * 4 \<le> length src" and "count \<le> length alpha"
    and "i < count" and "alpha ! i = 0"
  shows "\<exists>dst'. obs_blend_alpha_generic dst src alpha count = Some dst'
           \<and> dst' ! (i * 4 + 0) = dst ! (i * 4 + 0) \<and> dst' ! (i * 4 + 1) = dst ! (i * 4 + 1)
           \<and> dst' ! (i * 4 + 2) = dst ! (i * 4 + 2) \<and> dst' ! (i * 4 + 3) = dst ! (i * 4 + 3)"
proof -
  let ?r = "blended dst src alpha 0 count"
  have run: "obs_blend_alpha_generic dst src alpha count = Some ?r"
    using assms by (simp add: obs_blend_alpha_generic_def blend_scalar_loop_Some)
  have "?r ! (i * 4 + c) = dst ! (i * 4 + c)" if "c < 4" for c
  proof -
    have k: "i * 4 + c < count * 4" "i * 4 + c < length dst"
      using that assms by simp_all
    have "(i * 4 + c) div 4 = i"
      using that by simp
    then show ?thesis
      using k assms(5) by (simp add: nth_blended blend_channel_alpha_zero)
  qed
  from this [of 0] this [of 1] this [of 2] this [of 3] run show ?thesis by simp
qed

theorem obs_blend_alpha_generic_alpha_zero_witness:
  "2 * 4 \<le> length [10, 20, 30, 40, 50, 60, 70, 80 :: u8]
   \<and> 2 * 4 \<le> length [200, 0, 255, 1, 9, 8, 7, 6 :: u8]
   \<and> 2 \<le> length [255, 0 :: u8] \<and> (1 :: nat) < 2 \<and> [255, 0 :: u8] ! 1 = 0
   \<and> (\<exists>dst'. obs_blend_alpha_generic [10, 20, 30, 40, 50, 60, 70, 80]
                [200, 0, 255, 1, 9, 8, 7, 6] [255, 0] 2 = Some dst'
          \<and> dst' ! 4 = 50 \<and> dst' ! 5 = 60 \<and> dst' ! 6 = 70 \<and> dst' ! 7 = 80)"
  using obs_blend_alpha_generic_alpha_zero [of 2 "[10, 20, 30, 40, 50, 60, 70, 80]"
      "[200, 0, 255, 1, 9, 8, 7, 6]" "[255, 0]" 1]
  by simp

subsection \<open>Bulk copy\<close>

lemma length_overwrite [simp]:
  "p + length xs \<le> length m \<Longrightarrow> length (overwrite m p xs) = length m"
  by (simp add: overwrite_def)

lemma overwrite_Nil [simp]: "overwrite m p [] = m"
  by (simp add: overwrite_def)

lemma overwrite_overwrite:
  assumes "p + length xs + length ys \<le> length m"
  shows "overwrite (overwrite m p xs) (p + length xs) ys = overwrite m p (xs @ ys)"
proof -
  have p: "p \<le> length m" using assms by simp
  show ?thesis
    using assms p by (simp add: overwrite_def min_absorb2 ac_simps)
qed

lemma store_u8_overwrite:
  "p < length m \<Longrightarrow> store_u8 m p b = Some (overwrite m p [b])"
  by (simp add: store_u8_def overwrite_def upd_conv_take_nth_drop)

lemma vst1q_u8_overwrite:
  "p + 16 \<le> length m \<Longrightarrow> length v = 16 \<Longrightarrow> vst1q_u8 m p v = Some (overwrite m p v)"
  by (simp add: vst1q_u8_def overwrite_def)

lemma upt_4: "[0..<4] = [0, 1, 2, Suc 2]"
  by (simp add: upt_rec)

lemma take_64_split:
  "take 16 xs @ take 16 (drop 16 xs) @ take 16 (drop 32 xs) @ take 16 (drop 48 xs) = take 64 xs"
proof -
  have "take (16 + (16 + (16 + 16))) xs
      = take 16 xs @ take 16 (drop 16 xs) @ take 16 (drop 32 xs) @ take 16 (drop 48 xs)"
    unfolding take_add by simp
  then show ?thesis by simp
qed

lemma vld_vst_x4:
  assumes "s + 64 \<le> length src" "d + 64 \<le> length dst"
  shows "vld1q_u8_x4 src s \<bind> vst1q_u8_x4 dst d = Some (overwrite dst d (take 64 (drop s src)))"
proof -
  have "concat (map (take 16) (map (\<lambda>j. take 16 (drop (s + 16 * j) src)) [0..<4]))
      = take 64 (drop s src)"
    using take_64_split [of "drop s src"] by (simp add: upt_4 add.commute)
  then show ?thesis
    using assms by (simp add: vld1q_u8_x4_def vst1q_u8_x4_def overwrite_def)
qed

lemma memcpy_overwrite:
  "d + n \<le> length dst \<Longrightarrow> s + n \<le> length src \<Longrightarrow>
   memcpy dst d src s n = Some (overwrite dst d (take n (drop s src)))"
proof (induction n arbitrary: dst d s)
  case 0
  then show ?case by simp
next
  case (Suc n)
  let ?b = "src ! s"
  have ld: "load_u8 src s = Some ?b"
    using Suc.prems by (simp add: load_u8_def)
  have st: "store_u8 dst d ?b = Some (overwrite dst d [?b])"
    using Suc.prems by (simp add: store_u8_overwrite)
  have "memcpy (overwrite dst d [?b]) (Suc d) src (Suc s) n
      = Some (overwrite (overwrite dst d [?b]) (Suc d) (take n (drop (Suc s) src)))"
    using Suc.prems by (intro Suc.IH) simp_all
  also have "overwrite (overwrite dst d [?b]) (Suc d) (take n (drop (Suc s) src))
      = overwrite dst d ([?b] @ take n (drop (Suc s) src))"
    using Suc.prems overwrite_overwrite [of d "[?b]" "take n (drop (Suc s) src)" dst] by simp
  also have "[?b] @ take n (drop (Suc s) src) = take (Suc n) (drop s src)"
    using Suc.prems by (simp add: Cons_nth_drop_Suc [symmetric])
  finally show ?case
    using ld st by simp
qed

lemma memcpy_neon_loop_overwrite:
  "d + sz \<le> length dst \<Longrightarrow> s + sz \<le> length src \<Longrightarrow>
   memcpy_neon_loop dst d src s sz =
     Some (overwrite dst d (take (sz - sz mod 64) (drop s src)),
           d + (sz - sz mod 64), s + (sz - sz mod 64), sz mod 64)"
proof (induction dst d src s sz rule: memcpy_neon_loop.induct)
  case (1 dst d src s sz)
  show ?case
  proof (cases "64 \<le> sz")
    case False
    then show ?thesis
      by (subst memcpy_neon_loop.simps) simp
  next
    case True
    let ?c = "take 64 (drop s src)"
    let ?m = "(sz - 64) - (sz - 64) mod 64"
    let ?dst1 = "overwrite dst d ?c"
    have lc: "length ?c = 64" using True "1.prems" by simp
    have m: "sz - sz mod 64 = 64 + ?m" "sz mod 64 = (sz - 64) mod 64"
      using True by (simp_all add: le_mod_geq) 
    have step: "vld1q_u8_x4 src s \<bind> vst1q_u8_x4 dst d = Some ?dst1"
      using True "1.prems" by (intro vld_vst_x4) simp_all
    obtain data where data: "vld1q_u8_x4 src s = Some data" "vst1q_u8_x4 dst d data = Some ?dst1"
      using step by (cases "vld1q_u8_x4 src s") simp_all
    have "memcpy_neon_loop ?dst1 (d + 64) src (s + 64) (sz - 64) =
        Some (overwrite ?dst1 (d + 64) (take ?m (drop (s + 64) src)),
              d + 64 + ?m, s + 64 + ?m, (sz - 64) mod 64)"
      using True "1.prems" lc by (intro "1.IH" [OF True data]) simp_all
    moreover have "overwrite ?dst1 (d + 64) (take ?m (drop (s + 64) src))
        = overwrite dst d (?c @ take ?m (drop (s + 64) src))"
      using True "1.prems" lc
        overwrite_overwrite [of d ?c "take ?m (drop (s + 64) src)" dst] by simp
    moreover have "?c @ take ?m (drop (s + 64) src) = take (64 + ?m) (drop s src)"
      by (simp add: take_add add.commute)
    ultimately show ?thesis
      using True data m by (subst memcpy_neon_loop.simps) (simp add: add.assoc)
  qed
qed

lemma obs_memcpy_neon_overwrite:
  assumes "n \<le> length dst" "n \<le> length src"
  shows "obs_memcpy_neon dst src n = Some (overwrite dst 0 (take n src))"
proof (cases "64 \<le> n")
  case False
  then show ?thesis
    using assms by (simp add: obs_memcpy_neon_def memcpy_overwrite)
next
  case True
  let ?k = "n - n mod 64"
  let ?dst1 = "overwrite dst 0 (take ?k src)"
  have k: "?k + n mod 64 = n" "?k \<le> n" by simp_all
  have loop: "memcpy_neon_loop dst 0 src 0 n = Some (?dst1, ?k, ?k, n mod 64)"
    using assms memcpy_neon_loop_overwrite [of 0 n dst 0 src] by simp
  have "memcpy ?dst1 ?k src ?k (n mod 64) = Some (overwrite ?dst1 ?k (take (n mod 64) (drop ?k src)))"
    using assms k by (intro memcpy_overwrite) simp_all
  moreover have "overwrite ?dst1 ?k (take (n mod 64) (drop ?k src))
      = overwrite dst 0 (take ?k src @ take (n mod 64) (drop ?k src))"
    using assms k overwrite_overwrite [of 0 "take ?k src" "take (n mod 64) (drop ?k src)" dst]
    by simp
  moreover have "take ?k src @ take (n mod 64) (drop ?k src) = take n src"
    using take_add [of ?k "n mod 64" src] by simp
  ultimately have "memcpy ?dst1 ?k src ?k (n mod 64) = Some (overwrite dst 0 (take n src))"
    by simp
  moreover have "n mod 64 = 0 \<Longrightarrow> ?dst1 = overwrite dst 0 (take n src)"
    by simp
  ultimately show ?thesis
    using True loop by (simp add: obs_memcpy_neon_def)
qed

text \<open>
  Claim C3. For a source and a destination that are separate arrays and every byte count
  \<open>n\<close> within both, the NEON copy (64-byte chunks while at least 64 bytes remain, then
  the remainder byte by byte) returns, and it leaves the destination identical to the one
  the byte-wise copy of \<open>n\<close> bytes leaves: the first \<open>n\<close> bytes are those of the source, the
  others are untouched.
\<close>

theorem obs_memcpy_neon_bytewise:
  assumes "n \<le> length dst" and "n \<le> length src"
  shows "\<exists>dst'. obs_memcpy_neon dst src n = Some dst' \<and> obs_memcpy_scalar dst src n = Some dst'
           \<and> dst' = take n src @ drop n dst"
  using assms
  by (simp add: obs_memcpy_neon_overwrite obs_memcpy_scalar_def memcpy_overwrite overwrite_def)

theorem obs_memcpy_neon_bytewise_witness:
  "70 \<le> length (replicate 72 (0 :: u8)) \<and> 70 \<le> length (replicate 70 (7 :: u8))
   \<and> obs_memcpy_neon (replicate 72 0) (replicate 70 7) 70 = Some (replicate 70 7 @ replicate 2 0)
   \<and> obs_memcpy_scalar (replicate 72 0) (replicate 70 7) 70 = Some (replicate 70 7 @ replicate 2 0)"
  using obs_memcpy_neon_bytewise [of 70 "replicate 72 0" "replicate 70 7"]
  by simp

subsection \<open>Bulk fill\<close>

lemma memset_overwrite:
  "d + n \<le> length dst \<Longrightarrow> memset dst d v n = Some (overwrite dst d (replicate n (ucast v)))"
proof (induction n arbitrary: dst d)
  case 0
  then show ?case by simp
next
  case (Suc n)
  let ?b = "ucast v :: u8"
  have st: "store_u8 dst d ?b = Some (overwrite dst d [?b])"
    using Suc.prems by (simp add: store_u8_overwrite)
  have "memset (overwrite dst d [?b]) (Suc d) v n
      = Some (overwrite (overwrite dst d [?b]) (Suc d) (replicate n ?b))"
    using Suc.prems by (intro Suc.IH) simp_all
  also have "overwrite (overwrite dst d [?b]) (Suc d) (replicate n ?b)
      = overwrite dst d ([?b] @ replicate n ?b)"
    using Suc.prems overwrite_overwrite [of d "[?b]" "replicate n ?b" dst] by simp
  finally show ?case
    using st by simp
qed

lemma four_stores:
  assumes "d + 64 \<le> length dst"
  shows "vst1q_u8 dst d (replicate 16 b) \<bind> (\<lambda>dst1. vst1q_u8 dst1 (d + 16) (replicate 16 b)
           \<bind> (\<lambda>dst2. vst1q_u8 dst2 (d + 32) (replicate 16 b)
           \<bind> (\<lambda>dst3. vst1q_u8 dst3 (d + 48) (replicate 16 b) \<bind> f)))
         = f (overwrite dst d (replicate 64 b))"
proof -
  let ?v = "replicate 16 b"
  have 1: "vst1q_u8 dst d ?v = Some (overwrite dst d ?v)"
    using assms by (simp add: vst1q_u8_overwrite)
  have 2: "vst1q_u8 (overwrite dst d ?v) (d + 16) ?v = Some (overwrite dst d (replicate 32 b))"
    using assms overwrite_overwrite [of d ?v ?v dst]
    by (simp add: vst1q_u8_overwrite replicate_add [symmetric])
  have 3: "vst1q_u8 (overwrite dst d (replicate 32 b)) (d + 32) ?v = Some (overwrite dst d (replicate 48 b))"
    using assms overwrite_overwrite [of d "replicate 32 b" ?v dst]
    by (simp add: vst1q_u8_overwrite replicate_add [symmetric])
  have 4: "vst1q_u8 (overwrite dst d (replicate 48 b)) (d + 48) ?v = Some (overwrite dst d (replicate 64 b))"
    using assms overwrite_overwrite [of d "replicate 48 b" ?v dst]
    by (simp add: vst1q_u8_overwrite replicate_add [symmetric])
  show ?thesis
    by (simp add: 1 2 3 4)
qed

lemma memset_neon_loop_overwrite:
  "d + (q * 64 + r) \<le> length dst \<Longrightarrow> r < 64 \<Longrightarrow>
   memset_neon_loop dst d (replicate 16 b) (q * 64 + r) =
     Some (overwrite dst d (replicate (q * 64) b), d + q * 64, r)"
proof (induction q arbitrary: dst d)
  case 0
  then show ?case
    by (subst memset_neon_loop.simps) simp
next
  case (Suc q)
  let ?dst1 = "overwrite dst d (replicate 64 b)"
  have sz: "64 \<le> Suc q * 64 + r" "Suc q * 64 + r - 64 = q * 64 + r"
    by simp_all
  have d: "d + 64 \<le> length dst"
    using Suc.prems by simp
  have "memset_neon_loop ?dst1 (d + 64) (replicate 16 b) (q * 64 + r) =
      Some (overwrite ?dst1 (d + 64) (replicate (q * 64) b), d + 64 + q * 64, r)"
    using Suc.prems by (intro Suc.IH) simp_all
  moreover have "overwrite ?dst1 (d + 64) (replicate (q * 64) b)
      = overwrite dst d (replicate 64 b @ replicate (q * 64) b)"
    using Suc.prems overwrite_overwrite [of d "replicate 64 b" "replicate (q * 64) b" dst]
    by simp
  moreover have "replicate 64 b @ replicate (q * 64) b = replicate (Suc q * 64) b"
    using replicate_add [of 64 "q * 64" b] by simp
  moreover have "d + 64 + q * 64 = d + Suc q * 64"
    by simp
  ultimately have "memset_neon_loop ?dst1 (d + 64) (replicate 16 b) (q * 64 + r) =
      Some (overwrite dst d (replicate (Suc q * 64) b), d + Suc q * 64, r)"
    by simp
  then show ?case
    by (subst memset_neon_loop.simps) (simp only: sz if_True four_stores [OF d])
qed

lemma obs_memset_neon_overwrite:
  assumes "n \<le> length dst"
  shows "obs_memset_neon dst v n = Some (overwrite dst 0 (replicate n (ucast v)))"
proof (cases "64 \<le> n")
  case False
  then show ?thesis
    using assms by (simp add: obs_memset_neon_def memset_overwrite)
next
  case True
  let ?b = "ucast v :: u8"
  let ?k = "n div 64 * 64"
  let ?dst1 = "overwrite dst 0 (replicate ?k ?b)"
  have k: "?k + n mod 64 = n" "?k \<le> n" by simp_all
  have "memset_neon_loop dst 0 (replicate 16 ?b) (?k + n mod 64) = Some (?dst1, 0 + ?k, n mod 64)"
    using assms by (intro memset_neon_loop_overwrite) simp_all
  then have loop: "memset_neon_loop dst 0 (vdupq_n_u8 ?b) n = Some (?dst1, ?k, n mod 64)"
    by (simp add: vdupq_n_u8_def)
  have "memset ?dst1 ?k v (n mod 64) = Some (overwrite ?dst1 ?k (replicate (n mod 64) ?b))"
    using assms k by (intro memset_overwrite) simp_all
  moreover have "overwrite ?dst1 ?k (replicate (n mod 64) ?b)
      = overwrite dst 0 (replicate ?k ?b @ replicate (n mod 64) ?b)"
    using assms k overwrite_overwrite [of 0 "replicate ?k ?b" "replicate (n mod 64) ?b" dst]
    by simp
  moreover have "replicate ?k ?b @ replicate (n mod 64) ?b = replicate n ?b"
    using k(1) replicate_add [of ?k "n mod 64" ?b] by simp
  ultimately have "memset ?dst1 ?k v (n mod 64) = Some (overwrite dst 0 (replicate n ?b))"
    by simp
  moreover have "n mod 64 = 0 \<Longrightarrow> ?dst1 = overwrite dst 0 (replicate n ?b)"
    using k(1) by simp
  ultimately show ?thesis
    using True loop by (simp add: obs_memset_neon_def)
qed

text \<open>
  Claim C4. For every destination, fill value \<open>v\<close> and byte count \<open>n\<close> within the
  destination, \<open>obs_memset_neon\<close> returns, and each of the first \<open>n\<close> bytes of the destination
  is then the low 8 bits of \<open>v\<close>. The counts 0, 1, 63, 64, 65 and 4096 are instances.
\<close>

theorem obs_memset_neon_fills:
  assumes "n \<le> length dst"
  shows "\<exists>dst'. obs_memset_neon dst v n = Some dst' \<and> length dst' = length dst
           \<and> (\<forall>i<n. dst' ! i = ucast v \<and> uint (dst' ! i) = uint v mod 2 ^ 8)"
proof -
  have "uint (ucast v :: u8) = uint v mod 2 ^ 8"
    by (simp add: unsigned_ucast_eq take_bit_eq_mod)
  then show ?thesis
    using assms by (simp add: obs_memset_neon_overwrite overwrite_def nth_append)
qed

theorem obs_memset_neon_fills_witness:
  "65 \<le> length (replicate 70 (0 :: u8))
   \<and> (\<exists>dst'. obs_memset_neon (replicate 70 0) 0x1AB 65 = Some dst' \<and> length dst' = 70
          \<and> dst' ! 0 = 0xAB \<and> dst' ! 63 = 0xAB \<and> dst' ! 64 = 0xAB)"
proof -
  obtain dst' where run: "obs_memset_neon (replicate 70 0) 0x1AB 65 = Some dst'"
    and len: "length dst' = 70"
    and f: "\<forall>i<65. dst' ! i = ucast (0x1AB :: c_int) \<and> uint (dst' ! i) = uint (0x1AB :: c_int) mod 2 ^ 8"
    using obs_memset_neon_fills [of 65 "replicate 70 0" "0x1AB"] by auto
  have "dst' ! 0 = 0xAB" "dst' ! 63 = 0xAB" "dst' ! 64 = 0xAB"
    using f [rule_format, of 0] f [rule_format, of 63] f [rule_format, of 64] by simp_all
  then show ?thesis
    using run len by simp
qed

subsection \<open>The NEON blend against the scalar blend\<close>

text \<open>
  Below 16 pixels the vector loop does not run, and the NEON path is the scalar loop.
\<close>

lemma obs_blend_alpha_neon_below_16:
  "count < 16 \<Longrightarrow>
   obs_blend_alpha_neon dst src alpha count = obs_blend_alpha_generic dst src alpha count"
  by (simp add: obs_blend_alpha_neon_def obs_blend_alpha_generic_def blend_neon_loop.simps)

text \<open>
  Claim C2 says that for every pixel count the NEON path leaves the destination that the
  scalar path leaves, every pixel blended by \<open>(dst * (255 - a) + src * a) / 255\<close>. The code
  departs from it as soon as the vector loop runs once. At 16 pixels, with every destination
  byte 100, every source byte 200 and every alpha 128, the scalar path stores 150 in all 64
  bytes. The NEON path stores the saturated product \<open>min 255 (src * alpha[i])\<close> in the first
  16 bytes (4 pixels), with the alpha of pixel \<open>i\<close> for all of them, and leaves the other 48
  bytes (12 pixels) as they were; then \<open>i\<close> is 16 and no remainder is left.
\<close>

theorem obs_blend_alpha_neon_departs_at_16:
  "obs_blend_alpha_neon (replicate 64 100) (replicate 64 200) (replicate 16 128) 16
     = Some (replicate 16 255 @ replicate 48 100)
   \<and> obs_blend_alpha_generic (replicate 64 100) (replicate 64 200) (replicate 16 128) 16
     = Some (replicate 64 150)
   \<and> obs_blend_alpha_neon (replicate 64 100) (replicate 64 200) (replicate 16 128) 16
     \<noteq> obs_blend_alpha_generic (replicate 64 100) (replicate 64 200) (replicate 16 128) 16"
  by code_simp

subsection \<open>Aligned allocation\<close>

lemma is_power_of_two_iff: "is_power_of_two n \<longleftrightarrow> (\<exists>k. n = 2 ^ k)"
proof (induction n rule: is_power_of_two.induct)
  case (1 n)
  show ?case
  proof (cases "n < 2")
    case True
    have "(\<exists>k. n = 2 ^ k) \<longleftrightarrow> n = 1"
    proof
      assume "\<exists>k. n = 2 ^ k"
      then obtain k where k: "n = 2 ^ k" ..
      with True have "k = 0" by (cases k) simp_all
      with k show "n = 1" by simp
    next
      assume "n = 1"
      then have "n = 2 ^ 0" by simp
      then show "\<exists>k. n = 2 ^ k" ..
    qed
    then show ?thesis
      using True by (subst is_power_of_two.simps) simp
  next
    case False
    have "(even n \<and> (\<exists>k. n div 2 = 2 ^ k)) \<longleftrightarrow> (\<exists>k. n = 2 ^ k)"
    proof
      assume "even n \<and> (\<exists>k. n div 2 = 2 ^ k)"
      then obtain k where "even n" "n div 2 = 2 ^ k" by blast
      then have "n = 2 ^ Suc k" by auto
      then show "\<exists>k. n = 2 ^ k" ..
    next
      assume "\<exists>k. n = 2 ^ k"
      then obtain k where k: "n = 2 ^ k" ..
      with False obtain j where "k = Suc j" by (cases k) simp_all
      with k have "even n" "n div 2 = 2 ^ j" by simp_all
      then show "even n \<and> (\<exists>k. n div 2 = 2 ^ k)" by blast
    qed
    then show ?thesis
      using False "1.IH" by (subst is_power_of_two.simps) simp
  qed
qed






subsection \<open>The counter, one caller\<close>

lemma run_call_increment:
  "run_call c (obs_atomic_counter_increment delta)
     = c\<lparr>counter_value := counter_value c + delta, counter_updates := counter_updates c + 1\<rparr>"
  by (simp add: run_call_def obs_atomic_counter_increment_def atomic_fetch_add_value_def
      atomic_fetch_add_updates_def)

lemma counter_run_snoc:
  "counter_run c (ds @ [d]) = run_call (counter_run c ds) (obs_atomic_counter_increment d)"
  by (simp add: counter_run_def)

lemma counter_run_fields:
  "counter_value (counter_run c ds) = sum_list ds
   \<and> counter_updates (counter_run c ds) = of_nat (length ds)"
proof (induction ds rule: rev_induct)
  case Nil
  then show ?case
    by (simp add: counter_run_def obs_atomic_counter_init_def atomic_store_value_def
        atomic_store_updates_def)
next
  case (snoc d ds)
  then show ?case
    by (simp add: counter_run_snoc run_call_increment)
qed

lemma unat_sum_list_no_wrap:
  "sum_list (map unat ds) < 2 ^ 64 \<Longrightarrow> unat (sum_list ds :: u64) = sum_list (map unat ds)"
proof (induction ds)
  case Nil
  then show ?case by simp
next
  case (Cons d ds)
  then have "unat (sum_list ds) = sum_list (map unat ds)" by simp
  then show ?case
    using Cons.prems by (simp add: unat_word_ariths)
qed

lemma sum_list_take_mono:
  fixes xs :: "nat list"
  shows "j \<le> k \<Longrightarrow> sum_list (take j xs) \<le> sum_list (take k xs)"
proof (induction xs arbitrary: j k)
  case Nil
  then show ?case by simp
next
  case (Cons x xs)
  then show ?case
    by (cases j; cases k) simp_all
qed

lemma counter_value_monotone_below_wrap:
  assumes "sum_list (map unat deltas) < 2 ^ 64" and "j \<le> k"
  shows "counter_value (counter_run c (take j deltas)) \<le> counter_value (counter_run c (take k deltas))"
proof -
  have le: "sum_list (map unat (take n deltas)) \<le> sum_list (map unat deltas)" for n
    using sum_list_take_mono [of n "length deltas" "map unat deltas"]
    by (cases "n \<le> length deltas") (simp_all add: take_map)
  have v: "unat (counter_value (counter_run c (take n deltas))) = sum_list (take n (map unat deltas))" for n
    using le [of n] assms(1) unat_sum_list_no_wrap [of "take n deltas"]
    by (simp add: counter_run_fields take_map)
  show ?thesis
    using assms(2) sum_list_take_mono [of j k "map unat deltas"]
    by (simp add: word_le_nat_alt v)
qed

lemma counter_updates_monotone_below_wrap:
  assumes "length deltas < 2 ^ 64" and "j \<le> k"
  shows "counter_updates (counter_run c (take j deltas)) \<le> counter_updates (counter_run c (take k deltas))"
proof -
  have u: "unat (counter_updates (counter_run c (take n deltas))) = min (length deltas) n" for n
    using assms(1) unat_of_nat [of "min (length deltas) n", where 'a = 64]
    by (simp add: counter_run_fields)
  show ?thesis
    using assms(2) by (simp add: word_le_nat_alt u)
qed

text \<open>
  Claim C6 says that both fields never decrease, whatever the deltas. The value field does
  decrease when the sum wraps: after the deltas \<open>2^64 - 1\<close> and 1 it is 0, below the
  \<open>2^64 - 1\<close> it held after the first call.
\<close>

theorem counter_value_wraps:
  "counter_value (counter_run \<lparr>counter_value = 5, counter_updates = 9\<rparr> [0xFFFFFFFFFFFFFFFF, 1])
     < counter_value (counter_run \<lparr>counter_value = 5, counter_updates = 9\<rparr> [0xFFFFFFFFFFFFFFFF])"
  by (simp add: counter_run_def obs_atomic_counter_init_def atomic_store_value_def
        atomic_store_updates_def run_call_increment)

text \<open>
  Claim C6, amended. Each field is non-decreasing under its own bound: after \<open>j\<close> calls a
  field is at most what it is after \<open>k \<ge> j\<close> calls, for the value field when the deltas sum
  to less than \<open>2^64\<close>, and for the updates field when fewer than \<open>2^64\<close> calls are made,
  whatever the deltas.
\<close>

theorem counter_fields_monotone_below_wrap:
  assumes "j \<le> k"
  shows "(sum_list (map unat deltas) < 2 ^ 64 \<longrightarrow>
            counter_value (counter_run c (take j deltas))
              \<le> counter_value (counter_run c (take k deltas)))
       \<and> (length deltas < 2 ^ 64 \<longrightarrow>
            counter_updates (counter_run c (take j deltas))
              \<le> counter_updates (counter_run c (take k deltas)))"
  using assms counter_value_monotone_below_wrap [of deltas j k c]
    counter_updates_monotone_below_wrap [of deltas j k c]
  by simp

theorem counter_fields_monotone_below_wrap_witness:
  "(1 :: nat) \<le> 3 \<and> sum_list (map unat [3, 0, 4 :: u64]) < 2 ^ 64
   \<and> counter_value (counter_run \<lparr>counter_value = 5, counter_updates = 9\<rparr> (take 1 [3, 0, 4]))
       \<le> counter_value (counter_run \<lparr>counter_value = 5, counter_updates = 9\<rparr> (take 3 [3, 0, 4]))
   \<and> counter_value (counter_run \<lparr>counter_value = 5, counter_updates = 9\<rparr> [3, 0, 4]) = 7
   \<and> (1 :: nat) \<le> 2 \<and> length [0xFFFFFFFFFFFFFFFF, 1 :: u64] < 2 ^ 64
   \<and> counter_updates (counter_run \<lparr>counter_value = 5, counter_updates = 9\<rparr>
         (take 1 [0xFFFFFFFFFFFFFFFF, 1]))
       \<le> counter_updates (counter_run \<lparr>counter_value = 5, counter_updates = 9\<rparr>
         (take 2 [0xFFFFFFFFFFFFFFFF, 1]))
   \<and> counter_updates (counter_run \<lparr>counter_value = 5, counter_updates = 9\<rparr> [0xFFFFFFFFFFFFFFFF]) = 1
   \<and> counter_updates (counter_run \<lparr>counter_value = 5, counter_updates = 9\<rparr> [0xFFFFFFFFFFFFFFFF, 1]) = 2"
proof -
  let ?c = "\<lparr>counter_value = 5, counter_updates = 9\<rparr>"
  have h1: "(1 :: nat) \<le> 3" and s1: "sum_list (map unat [3, 0, 4 :: u64]) < 2 ^ 64"
    and h2: "(1 :: nat) \<le> 2" and l2: "length [0xFFFFFFFFFFFFFFFF, 1 :: u64] < 2 ^ 64"
    by simp_all
  have v: "counter_value (counter_run ?c (take 1 [3, 0, 4]))
      \<le> counter_value (counter_run ?c (take 3 [3, 0, 4]))"
    using counter_fields_monotone_below_wrap [OF h1, of "[3, 0, 4]" ?c] s1 by blast
  have u: "counter_updates (counter_run ?c (take 1 [0xFFFFFFFFFFFFFFFF, 1]))
      \<le> counter_updates (counter_run ?c (take 2 [0xFFFFFFFFFFFFFFFF, 1]))"
    using counter_fields_monotone_below_wrap [OF h2, of "[0xFFFFFFFFFFFFFFFF, 1]" ?c] l2 by blast
  have e: "counter_value (counter_run ?c [3, 0, 4]) = 7"
    "counter_updates (counter_run ?c [0xFFFFFFFFFFFFFFFF]) = 1"
    "counter_updates (counter_run ?c [0xFFFFFFFFFFFFFFFF, 1]) = 2"
    by (simp_all add: counter_run_fields)
  show ?thesis
    using h1 s1 h2 l2 v u e by blast
qed


subsection \<open>The counter, several threads\<close>

lemma sum_list_map_update:
  fixes f :: "'a \<Rightarrow> u64"
  shows "t < length ts \<Longrightarrow> sum_list (map f (ts[t := x])) + f (ts ! t) = sum_list (map f ts) + f x"
proof (induction ts arbitrary: t)
  case Nil
  then show ?case by simp
next
  case (Cons y ys)
  then show ?case
    by (cases t) (simp_all add: algebra_simps)
qed

lemma sched_step_total_value: "total_value (sched_step st t) = total_value st"
proof (cases st)
  case (Pair c ts)
  show ?thesis
  proof (cases "t < length ts")
    case False
    then show ?thesis using Pair by simp
  next
    case True
    show ?thesis
    proof (cases "ts ! t")
      case Nil
      then show ?thesis using Pair True by simp
    next
      case (Cons a rest)
      have "sum_list (map pending_value (ts[t := rest])) + pending_value (a # rest)
          = sum_list (map pending_value ts) + pending_value rest"
        using sum_list_map_update [OF True, of pending_value rest] Cons by simp
      then show ?thesis
        using Pair True Cons
        by (cases a) (simp_all add: total_value_def atomic_fetch_add_value_def atomic_fetch_add_updates_def algebra_simps)
    qed
  qed
qed

lemma sched_step_total_updates: "total_updates (sched_step st t) = total_updates st"
proof (cases st)
  case (Pair c ts)
  show ?thesis
  proof (cases "t < length ts")
    case False
    then show ?thesis using Pair by simp
  next
    case True
    show ?thesis
    proof (cases "ts ! t")
      case Nil
      then show ?thesis using Pair True by simp
    next
      case (Cons a rest)
      have "sum_list (map pending_updates (ts[t := rest])) + pending_updates (a # rest)
          = sum_list (map pending_updates ts) + pending_updates rest"
        using sum_list_map_update [OF True, of pending_updates rest] Cons by simp
      then show ?thesis
        using Pair True Cons
        by (cases a) (simp_all add: total_updates_def atomic_fetch_add_value_def atomic_fetch_add_updates_def algebra_simps)
    qed
  qed
qed

lemma run_schedule_total_value: "total_value (run_schedule sched st) = total_value st"
  unfolding run_schedule_def
  by (induction sched arbitrary: st) (simp_all add: sched_step_total_value)

lemma run_schedule_total_updates: "total_updates (run_schedule sched st) = total_updates st"
  unfolding run_schedule_def
  by (induction sched arbitrary: st) (simp_all add: sched_step_total_updates)

lemma pending_increments:
  "pending_value (concat (replicate K (obs_atomic_counter_increment 1))) = of_nat K"
  "pending_updates (concat (replicate K (obs_atomic_counter_increment 1))) = of_nat K"
  by (induction K) (simp_all add: obs_atomic_counter_increment_def)

lemma finished_pending:
  "finished ts \<Longrightarrow> sum_list (map pending_value ts) = 0 \<and> sum_list (map pending_updates ts) = 0"
  by (induction ts) (simp_all add: finished_def)

lemma sum_list_replicate_word: "sum_list (replicate n x) = of_nat n * (x :: u64)"
  by (induction n) (simp_all add: algebra_simps)

text \<open>
  Claim C7. \<open>T\<close> threads each make \<open>K\<close> calls of \<^verbatim>\<open>obs_atomic_counter_increment\<close> with
  delta 1 on a counter that was just initialised, the atomic steps of those calls
  interleaved in any order. Once all threads have finished, \<^verbatim>\<open>obs_atomic_counter_get\<close> returns \<open>T * K\<close> and
  \<^verbatim>\<open>obs_atomic_counter_get_updates\<close> returns \<open>T * K\<close> (as \<^verbatim>\<open>uint64_t\<close> values; the very
  numbers when \<open>T * K\<close> is below \<open>2^64\<close>).
\<close>

theorem concurrent_increments_total:
  assumes "run_schedule sched
             (obs_atomic_counter_init c0,
              replicate T (concat (replicate K (obs_atomic_counter_increment 1))))
           = (c', ts')"
    and "finished ts'"
  shows "obs_atomic_counter_get c' = of_nat (T * K)
       \<and> obs_atomic_counter_get_updates c' = of_nat (T * K)
       \<and> (T * K < 2 ^ 64 \<longrightarrow> unat (obs_atomic_counter_get c') = T * K
                              \<and> unat (obs_atomic_counter_get_updates c') = T * K)"
proof -
  let ?st = "(obs_atomic_counter_init c0,
              replicate T (concat (replicate K (obs_atomic_counter_increment 1))))"
  have v0: "total_value ?st = of_nat (T * K)"
    by (simp add: total_value_def obs_atomic_counter_init_def atomic_store_value_def
        atomic_store_updates_def sum_list_replicate_word pending_increments)
  have u0: "total_updates ?st = of_nat (T * K)"
    by (simp add: total_updates_def obs_atomic_counter_init_def atomic_store_value_def
        atomic_store_updates_def sum_list_replicate_word pending_increments)
  have "total_value (c', ts') = of_nat (T * K)"
    using run_schedule_total_value [of sched ?st] assms(1) v0 by simp
  then have v: "obs_atomic_counter_get c' = of_nat (T * K)"
    using finished_pending [OF assms(2)] by (simp add: total_value_def obs_atomic_counter_get_def)
  have "total_updates (c', ts') = of_nat (T * K)"
    using run_schedule_total_updates [of sched ?st] assms(1) u0 by simp
  then have u: "obs_atomic_counter_get_updates c' = of_nat (T * K)"
    using finished_pending [OF assms(2)]
    by (simp add: total_updates_def obs_atomic_counter_get_updates_def)
  have "unat (of_nat (T * K) :: u64) = T * K" if "T * K < 2 ^ 64"
    using that unat_of_nat [of "T * K", where 'a = 64] by (simp del: of_nat_mult)
  with v u show ?thesis by simp
qed

theorem concurrent_increments_total_witness:
  "run_schedule [0, 1, 1, 0, 0, 1, 1, 0]
     (obs_atomic_counter_init \<lparr>counter_value = 5, counter_updates = 9\<rparr>,
      replicate 2 (concat (replicate 2 (obs_atomic_counter_increment 1))))
     = (\<lparr>counter_value = 4, counter_updates = 4\<rparr>, [[], []])
   \<and> finished [[], []]
   \<and> obs_atomic_counter_get \<lparr>counter_value = 4, counter_updates = 4\<rparr> = of_nat (2 * 2)
   \<and> obs_atomic_counter_get_updates \<lparr>counter_value = 4, counter_updates = 4\<rparr> = of_nat (2 * 2)
   \<and> (2 :: nat) * 2 < 2 ^ 64
   \<and> unat (obs_atomic_counter_get \<lparr>counter_value = 4, counter_updates = 4\<rparr>) = 2 * 2"
proof -
  have run: "run_schedule [0, 1, 1, 0, 0, 1, 1, 0]
     (obs_atomic_counter_init \<lparr>counter_value = 5, counter_updates = 9\<rparr>,
      replicate 2 (concat (replicate 2 (obs_atomic_counter_increment 1))))
     = (\<lparr>counter_value = 4, counter_updates = 4\<rparr>, [[], []])"
    by code_simp
  have fin: "finished [[], []]"
    by (simp add: finished_def)
  show ?thesis
    using concurrent_increments_total [OF run fin] run fin by simp
qed

text \<open>A schedule that names every thread at least \<open>2 * K\<close> times lets all of them finish.\<close>

lemma sched_step_length: "length (snd (sched_step st t)) = length (snd st)"
  by (cases st) (simp split: list.splits)

lemma sched_step_remaining:
  "u < length (snd st) \<Longrightarrow>
   length (snd (sched_step st t) ! u) = length (snd st ! u) - (if t = u then 1 else 0)"
  by (cases st) (auto split: list.splits simp: nth_list_update)

lemma run_schedule_length: "length (snd (run_schedule sched st)) = length (snd st)"
  unfolding run_schedule_def
  by (induction sched arbitrary: st) (simp_all add: sched_step_length)

lemma run_schedule_remaining:
  "u < length (snd st) \<Longrightarrow>
   length (snd (run_schedule sched st) ! u) = length (snd st ! u) - count_list sched u"
  unfolding run_schedule_def
proof (induction sched arbitrary: st)
  case Nil
  then show ?case by simp
next
  case (Cons t sched)
  have "length (snd (foldl sched_step (sched_step st t) sched) ! u)
      = length (snd (sched_step st t) ! u) - count_list sched u"
    using Cons.prems by (intro Cons.IH) (simp add: sched_step_length)
  then show ?case
    using Cons.prems by (simp add: sched_step_remaining)
qed

lemma length_increments:
  "length (concat (replicate K (obs_atomic_counter_increment 1))) = 2 * K"
  by (induction K) (simp_all add: obs_atomic_counter_increment_def)

lemma fair_schedule_finishes:
  assumes "\<forall>t<T. 2 * K \<le> count_list sched t"
  shows "finished (snd (run_schedule sched (c, replicate T (concat (replicate K (obs_atomic_counter_increment 1))))))"
proof -
  let ?ts = "snd (run_schedule sched (c, replicate T (concat (replicate K (obs_atomic_counter_increment 1)))))"
  have len: "length ?ts = T"
    by (simp add: run_schedule_length)
  have "?ts ! u = []" if "u < T" for u
  proof -
    have "length (?ts ! u) = 2 * K - count_list sched u"
      using that run_schedule_remaining [of u "(c, replicate T (concat (replicate K (obs_atomic_counter_increment 1))))" sched]
      by (simp add: length_increments)
    then show ?thesis
      using assms that by simp
  qed
  then show ?thesis
    using len by (simp add: finished_def list_all_length)
qed

end
